theory Spec2Isabelle
  imports Complex_Main
begin

section \<open>The cursor of the line chart: \<open>src/charts/line/Cursor.tsx\<close>\<close>

text \<open>
  The development embeds the function \<open>findClosestIndex\<close>, the curve-index correction of
  \<open>linearScalePositionAndIndex\<close> and the \<open>onEnd\<close> handler of the gesture.

  A JavaScript number is an IEEE 754 binary64 value. Keys and query are modelled as reals;
  comparisons of two numbers are exact, and the one arithmetic operation on keys, the
  subtraction of lines 60 and 61, is rounded to the nearest double. Indices are \<open>int\<close>
  (the index arithmetic is exact on doubles), because the source lets \<open>right\<close> go down
  to \<open>-1\<close>.
\<close>

subsection \<open>Rounding to binary64\<close>

text \<open>
  Round to nearest, ties to even, with 53 significant bits: the integer nearest to a real,
  the even one of two equally near.
\<close>

definition round_half_even :: "real \<Rightarrow> int" where
  "round_half_even x =
     (let f = \<lfloor>x\<rfloor>; d = x - of_int f in
      if d < 1 / 2 then f else if 1 / 2 < d then f + 1 else if even f then f else f + 1)"

text \<open>
  The exponent of a non-negative real: the greatest \<open>e\<close> in \<open>-1022 .. 1023\<close> with
  \<open>2^e \<le> x\<close>, and \<open>-1022\<close> below the normal range (subnormal numbers share the
  spacing \<open>2^-1074\<close>). It is found by scanning the exponents downwards from \<open>1023\<close>.
\<close>

primrec exponent_from :: "nat \<Rightarrow> real \<Rightarrow> int" where
  "exponent_from 0 x = - 1022"
| "exponent_from (Suc k) x =
     (if 2 powi (int k - 1021) \<le> x then int k - 1021 else exponent_from k x)"

definition exponent :: "real \<Rightarrow> int" where
  "exponent x = exponent_from 2045 x"

text \<open>
  The nearest multiple of the spacing \<open>2^(e - 52)\<close>, then the overflow test: a result of
  magnitude \<open>2^1024\<close> or more is \<open>Infinity\<close>. The differences are only passed to
  \<open>Math.abs\<close> and compared, so \<open>Infinity\<close> is represented by the real \<open>2^1024\<close>, which is
  above every finite double and equal to itself.
\<close>

definition round_core :: "real \<Rightarrow> real" where
  "round_core x =
     2 powi (exponent x - 52) * of_int (round_half_even (x / 2 powi (exponent x - 52)))"

definition round_magnitude :: "real \<Rightarrow> real" where
  "round_magnitude x =
     (let r = round_core x in if 2 powi 1024 \<le> r then 2 powi 1024 else r)"

definition round_double :: "real \<Rightarrow> real" where
  "round_double x = (if x < 0 then - round_magnitude (- x) else round_magnitude x)"

subsection \<open>Reading an array the way JavaScript does\<close>

text \<open>
  \<open>timestamps[i]\<close> is \<open>undefined\<close> outside \<open>0 .. length - 1\<close>; the model has \<open>None\<close>
  there. A comparison with \<open>undefined\<close> is false, \<open>undefined === x\<close> is false for a number
  \<open>x\<close>, and \<open>Math.abs(undefined - x)\<close> is \<open>NaN\<close>, which compares false with everything;
  \<open>None\<close> stands for \<open>NaN\<close> as well. \<open>Math.abs(timestamps[k] - xRelative)\<close> is the
  absolute value of the rounded difference.
\<close>

definition read :: "real list \<Rightarrow> int \<Rightarrow> real option" where
  "read timestamps i =
     (if 0 \<le> i \<and> i < int (length timestamps) then Some (timestamps ! nat i) else None)"

definition js_le :: "real option \<Rightarrow> real option \<Rightarrow> bool" where
  "js_le a b = (case a of None \<Rightarrow> False
                | Some u \<Rightarrow> (case b of None \<Rightarrow> False | Some v \<Rightarrow> u \<le> v))"

definition js_lt :: "real option \<Rightarrow> real option \<Rightarrow> bool" where
  "js_lt a b = (case a of None \<Rightarrow> False
                | Some u \<Rightarrow> (case b of None \<Rightarrow> False | Some v \<Rightarrow> u < v))"

definition js_ge :: "real option \<Rightarrow> real option \<Rightarrow> bool" where
  "js_ge a b = (case a of None \<Rightarrow> False
                | Some u \<Rightarrow> (case b of None \<Rightarrow> False | Some v \<Rightarrow> v \<le> u))"

definition js_strict_eq :: "real option \<Rightarrow> real option \<Rightarrow> bool" where
  "js_strict_eq a b = (case a of None \<Rightarrow> False
                | Some u \<Rightarrow> (case b of None \<Rightarrow> False | Some v \<Rightarrow> u = v))"

definition abs_diff :: "real option \<Rightarrow> real \<Rightarrow> real option" where
  "abs_diff a xRelative =
     (case a of None \<Rightarrow> None | Some u \<Rightarrow> Some \<bar>round_double (u - xRelative)\<bar>)"

subsection \<open>\<open>findClosestIndex\<close>\<close>

text \<open>
  The \<open>while\<close> loop of lines 43 to 55 either leaves the function with \<open>return mid\<close>
  (\<open>Found mid\<close>) or ends because \<open>left > right\<close>, with the final values of the two
  variables (\<open>Crossed left right\<close>).
\<close>

datatype loop_exit = Found int | Crossed int int

function search_loop :: "real list \<Rightarrow> real \<Rightarrow> int \<Rightarrow> int \<Rightarrow> loop_exit" where
  "search_loop timestamps xRelative left right =
     (if left \<le> right then
        (let mid = (left + right) div 2 in
         if js_strict_eq (read timestamps mid) (Some xRelative) then Found mid
         else if js_lt (read timestamps mid) (Some xRelative)
              then search_loop timestamps xRelative (mid + 1) right
              else search_loop timestamps xRelative left (mid - 1))
      else Crossed left right)"
  by pat_completeness auto
termination
  by (relation "measure (\<lambda>(timestamps, xRelative, left, right). nat (right - left + 1))") auto

declare search_loop.simps [simp del]

definition findClosestIndex :: "real list \<Rightarrow> real \<Rightarrow> int" where
  "findClosestIndex timestamps xRelative =
     (let left = 0; right = int (length timestamps) - 1 in
      if js_le (Some xRelative) (read timestamps left) then left
      else if js_ge (Some xRelative) (read timestamps right) then right
      else (case search_loop timestamps xRelative left right of
              Found mid \<Rightarrow> mid
            | Crossed left' right' \<Rightarrow>
                (let leftDiff = abs_diff (read timestamps left') xRelative;
                     rightDiff = abs_diff (read timestamps right') xRelative in
                 if js_le leftDiff rightDiff then left' else right')))"

text \<open>
  The same control flow, instrumented: the indices at which \<open>timestamps\<close> is read, in
  program order. Line 36 reads \<open>timestamps[left]\<close>, line 39 \<open>timestamps[right]\<close>; every
  iteration reads \<open>timestamps[mid]\<close> at line 46 and, unless it returns there, once more
  at line 50; lines 60 and 61 read \<open>timestamps[left]\<close> and \<open>timestamps[right]\<close>.
\<close>

function search_loop_reads :: "real list \<Rightarrow> real \<Rightarrow> int \<Rightarrow> int \<Rightarrow> int list" where
  "search_loop_reads timestamps xRelative left right =
     (if left \<le> right then
        (let mid = (left + right) div 2 in
         mid # (if js_strict_eq (read timestamps mid) (Some xRelative) then []
                else mid # (if js_lt (read timestamps mid) (Some xRelative)
                     then search_loop_reads timestamps xRelative (mid + 1) right
                     else search_loop_reads timestamps xRelative left (mid - 1))))
      else [])"
  by pat_completeness auto
termination
  by (relation "measure (\<lambda>(timestamps, xRelative, left, right). nat (right - left + 1))") auto

declare search_loop_reads.simps [simp del]

text \<open>The number of iterations of the loop.\<close>

function search_loop_iterations :: "real list \<Rightarrow> real \<Rightarrow> int \<Rightarrow> int \<Rightarrow> nat" where
  "search_loop_iterations timestamps xRelative left right =
     (if left \<le> right then
        (let mid = (left + right) div 2 in
         if js_strict_eq (read timestamps mid) (Some xRelative) then 1
         else if js_lt (read timestamps mid) (Some xRelative)
              then 1 + search_loop_iterations timestamps xRelative (mid + 1) right
              else 1 + search_loop_iterations timestamps xRelative left (mid - 1))
      else 0)"
  by pat_completeness auto
termination
  by (relation "measure (\<lambda>(timestamps, xRelative, left, right). nat (right - left + 1))") auto

declare search_loop_iterations.simps [simp del]

definition findClosestIndex_reads :: "real list \<Rightarrow> real \<Rightarrow> int list" where
  "findClosestIndex_reads timestamps xRelative =
     (let left = 0; right = int (length timestamps) - 1 in
      if js_le (Some xRelative) (read timestamps left) then [left]
      else if js_ge (Some xRelative) (read timestamps right) then [left, right]
      else [left, right] @ search_loop_reads timestamps xRelative left right @
           (case search_loop timestamps xRelative left right of
              Found mid \<Rightarrow> []
            | Crossed left' right' \<Rightarrow> [left', right']))"

text \<open>
  One iteration of the loop on the pair \<open>(left, right)\<close>, for the statement that the
  interval shrinks: \<open>None\<close> when the iteration returns.
\<close>

definition loop_body :: "real list \<Rightarrow> real \<Rightarrow> int \<times> int \<Rightarrow> (int \<times> int) option" where
  "loop_body timestamps xRelative lr =
     (let left = fst lr; right = snd lr; mid = (left + right) div 2 in
      if js_strict_eq (read timestamps mid) (Some xRelative) then None
      else if js_lt (read timestamps mid) (Some xRelative) then Some (mid + 1, right)
      else Some (left, mid - 1))"

subsection \<open>The curve-index correction of \<open>linearScalePositionAndIndex\<close>\<close>

text \<open>
  \<open>Path\<close> is the type of react-native-redash: a start point and a list of cubic curves.
  Lines 123 to 128 use the number of curves only.
\<close>

datatype vector = Vector (vector_x: real) (vector_y: real)

datatype curve = Curve (curve_c1: vector) (curve_c2: vector) (curve_to: vector)

datatype path = Path (path_move: vector) (path_curves: "curve list") (path_close: bool)

definition pathDataDelta :: "path \<Rightarrow> real list \<Rightarrow> int" where
  "pathDataDelta p timestamps =
     \<bar>int (length (path_curves p)) - int (length timestamps)\<bar>"

definition closestPathCurve :: "path \<Rightarrow> real list \<Rightarrow> int \<Rightarrow> int" where
  "closestPathCurve p timestamps closestIndex =
     max (min closestIndex (int (length (path_curves p)) + 1) - pathDataDelta p timestamps) 0"

text \<open>
  The formula in the words of the specification,
  \<open>segment = clamp(min(index, segmentCount+1) - delta, 0, segmentCount-1)\<close>, with the
  \<open>clamp\<close> of react-native-redash, \<open>Math.min(Math.max(lowerBound, value), upperBound)\<close>.
\<close>

definition clamp_spec :: "int \<Rightarrow> int \<Rightarrow> int \<Rightarrow> int" where
  "clamp_spec v lowerBound upperBound = min (max lowerBound v) upperBound"

definition segment_spec :: "int \<Rightarrow> int \<Rightarrow> int \<Rightarrow> int" where
  "segment_spec index segmentCount delta =
     clamp_spec (min index (segmentCount + 1) - delta) 0 (segmentCount - 1)"

subsection \<open>The shared values and the end of the gesture\<close>

record shared =
  isActive :: bool
  currentIndex :: int
  currentX :: real

definition onEnd :: "shared \<Rightarrow> shared" where
  "onEnd s = s\<lparr>isActive := False, currentIndex := - 1\<rparr>"

section \<open>Properties\<close>

subsection \<open>Rounding is monotone, odd, and exact on integers below \<open>2^53\<close>\<close>

lemma round_half_even_of_int: "round_half_even (of_int k) = k"
  by (simp add: round_half_even_def)

lemma round_half_even_bounds: "\<lfloor>x\<rfloor> \<le> round_half_even x \<and> round_half_even x \<le> \<lfloor>x\<rfloor> + 1"
  by (simp add: round_half_even_def Let_def)

lemma round_half_even_mono:
  assumes "x \<le> y"
  shows "round_half_even x \<le> round_half_even y"
proof (cases "\<lfloor>x\<rfloor> = \<lfloor>y\<rfloor>")
  case True
  then show ?thesis using assms by (auto simp: round_half_even_def Let_def)
next
  case False
  then have "\<lfloor>x\<rfloor> < \<lfloor>y\<rfloor>" using assms floor_mono[of x y] by linarith
  then show ?thesis
    using round_half_even_bounds[of x] round_half_even_bounds[of y] by linarith
qed

lemma exponent_from_bounds:
  "- 1022 \<le> exponent_from k x \<and> exponent_from k x \<le> int k - 1022"
  by (induction k) auto

lemma exponent_from_lower:
  "- 1022 < exponent_from k x \<Longrightarrow> 2 powi (exponent_from k x) \<le> x"
  by (induction k) (auto split: if_splits)

lemma exponent_from_upper:
  "x < 2 powi (int k - 1021) \<Longrightarrow> x < 2 powi (exponent_from k x + 1)"
proof (induction k)
  case 0
  then show ?case by simp
next
  case (Suc k)
  show ?case
  proof (cases "2 powi (int k - 1021) \<le> x")
    case True
    have "int (Suc k) - 1021 = int k - 1021 + 1" by simp
    with Suc.prems True show ?thesis by simp
  next
    case False
    then have "x < 2 powi (int k - 1021)" by simp
    from Suc.IH[OF this] False show ?thesis by simp
  qed
qed

lemma exponent_from_mono:
  "x \<le> y \<Longrightarrow> exponent_from k x \<le> exponent_from k y"
proof (induction k)
  case 0
  then show ?case by simp
next
  case (Suc k)
  then show ?case
    using exponent_from_bounds[of k x] by auto
qed

lemma exponent_bounds: "- 1022 \<le> exponent x \<and> exponent x \<le> 1023"
  using exponent_from_bounds[of 2045 x] by (simp add: exponent_def)

lemma exponent_lower: "- 1022 < exponent x \<Longrightarrow> 2 powi (exponent x) \<le> x"
  unfolding exponent_def by (rule exponent_from_lower)

lemma exponent_upper: "x < 2 powi 1024 \<Longrightarrow> x < 2 powi (exponent x + 1)"
  unfolding exponent_def using exponent_from_upper[of x 2045] by simp

lemma exponent_mono: "x \<le> y \<Longrightarrow> exponent x \<le> exponent y"
  unfolding exponent_def by (rule exponent_from_mono)

lemma exponent_eq:
  assumes "- 1022 \<le> e" "e \<le> 1023" "2 powi e \<le> x" "x < 2 powi (e + 1)"
  shows "exponent x = e"
proof -
  have "(2::real) powi (e + 1) \<le> 2 powi 1024"
    using assms(2) by (intro power_int_increasing) auto
  with assms(4) have "x < 2 powi 1024" by simp
  then have "x < 2 powi (exponent x + 1)" by (rule exponent_upper)
  with assms(3) have "(2::real) powi e < 2 powi (exponent x + 1)" by simp
  then have "e < exponent x + 1"
    by (metis linorder_not_le one_le_numeral power_int_increasing)
  moreover have "exponent x \<le> e"
  proof (cases "- 1022 < exponent x")
    case True
    then have "2 powi (exponent x) \<le> x" by (rule exponent_lower)
    with assms(4) have "(2::real) powi (exponent x) < 2 powi (e + 1)" by simp
    then have "exponent x < e + 1"
      by (metis linorder_not_le one_le_numeral power_int_increasing)
    then show ?thesis by simp
  next
    case False
    with exponent_bounds[of x] assms(1) show ?thesis by simp
  qed
  ultimately show ?thesis by simp
qed

lemma exponent_top: "2 powi 1023 \<le> x \<Longrightarrow> exponent x = 1023"
proof -
  assume a: "2 powi 1023 \<le> x"
  have s: "(2045::nat) = Suc 2044" by simp
  have i: "int 2044 - 1021 = 1023" by simp
  show ?thesis unfolding exponent_def s exponent_from.simps i using a by (simp only: if_True)
qed

lemma pow_split: "(2::real) powi (a + b) = 2 powi a * 2 powi b"
  by (rule power_int_add) simp

lemma exponent_upper':
  assumes "exponent x < 1023"
  shows "x < 2 powi (exponent x + 1)"
proof -
  have "x < 2 powi 1023" using assms exponent_top[of x] by fastforce
  also have "(2::real) powi 1023 \<le> 2 powi 1024" by (intro power_int_increasing) auto
  finally show ?thesis by (rule exponent_upper)
qed

lemma round_magnitude_core: "round_magnitude x = min (round_core x) (2 powi 1024)"
  by (simp add: round_magnitude_def Let_def min_def)

lemma round_core_le:
  assumes "exponent x < 1023"
  shows "round_core x \<le> 2 powi (exponent x + 1)"
proof -
  let ?e = "exponent x"
  let ?u = "(2::real) powi (?e - 52)"
  have u: "0 < ?u" by simp
  have "?e + 1 = (?e - 52) + 53" by simp
  then have split: "(2::real) powi (?e + 1) = ?u * 2 powi 53"
    by (simp only: pow_split)
  have "x < 2 powi (?e + 1)" using assms by (rule exponent_upper')
  then have "x / ?u \<le> 2 powi 53" using u split by (simp add: pos_divide_le_eq mult.commute)
  then have "x / ?u \<le> of_int (2 ^ 53)" by simp
  then have "round_half_even (x / ?u) \<le> round_half_even (of_int (2 ^ 53))"
    by (rule round_half_even_mono)
  then have "round_half_even (x / ?u) \<le> 2 ^ 53" by (simp only: round_half_even_of_int)
  then have "(of_int (round_half_even (x / ?u)) :: real) \<le> of_int (2 ^ 53)"
    by (simp only: of_int_le_iff)
  then have "?u * of_int (round_half_even (x / ?u)) \<le> ?u * of_int (2 ^ 53)"
    using u by (simp only: mult_le_cancel_left_pos)
  then show ?thesis unfolding round_core_def split by simp
qed

lemma round_core_ge:
  assumes "- 1022 < exponent y"
  shows "2 powi (exponent y) \<le> round_core y"
proof -
  let ?e = "exponent y"
  let ?u = "(2::real) powi (?e - 52)"
  have u: "0 < ?u" by simp
  have "?e = (?e - 52) + 52" by simp
  then have split: "(2::real) powi ?e = ?u * 2 powi 52"
    using pow_split[of "?e - 52" 52] by (simp only:)
  have "2 powi ?e \<le> y" using assms by (rule exponent_lower)
  then have "2 powi 52 \<le> y / ?u" using u split by (simp add: pos_le_divide_eq mult.commute)
  then have "of_int (2 ^ 52) \<le> y / ?u" by simp
  then have "round_half_even (of_int (2 ^ 52)) \<le> round_half_even (y / ?u)"
    by (rule round_half_even_mono)
  then have "2 ^ 52 \<le> round_half_even (y / ?u)" by (simp only: round_half_even_of_int)
  then have "(of_int (2 ^ 52) :: real) \<le> of_int (round_half_even (y / ?u))"
    by (simp only: of_int_le_iff)
  then have "?u * of_int (2 ^ 52) \<le> ?u * of_int (round_half_even (y / ?u))"
    using u by (simp only: mult_le_cancel_left_pos)
  then show ?thesis unfolding round_core_def split by simp
qed

lemma round_core_mono:
  assumes "x \<le> y"
  shows "round_core x \<le> round_core y"
proof (cases "exponent x = exponent y")
  case True
  let ?u = "(2::real) powi (exponent y - 52)"
  have u: "0 < ?u" by simp
  have "x / ?u \<le> y / ?u" using assms u by (simp add: divide_right_mono)
  then have "round_half_even (x / ?u) \<le> round_half_even (y / ?u)"
    by (rule round_half_even_mono)
  then have "(of_int (round_half_even (x / ?u)) :: real) \<le> of_int (round_half_even (y / ?u))"
    by (simp only: of_int_le_iff)
  then have "?u * of_int (round_half_even (x / ?u)) \<le> ?u * of_int (round_half_even (y / ?u))"
    using u by (simp only: mult_le_cancel_left_pos)
  then show ?thesis unfolding round_core_def True .
next
  case False
  with exponent_mono[OF assms] have lt: "exponent x < exponent y" by simp
  have "exponent x < 1023" using lt exponent_bounds[of y] by linarith
  then have a: "round_core x \<le> 2 powi (exponent x + 1)" by (rule round_core_le)
  have "- 1022 < exponent y" using lt exponent_bounds[of x] by linarith
  then have b: "2 powi (exponent y) \<le> round_core y" by (rule round_core_ge)
  have "(2::real) powi (exponent x + 1) \<le> 2 powi (exponent y)"
    using lt by (intro power_int_increasing) auto
  with a b show ?thesis by linarith
qed

lemma exponent_zero: "exponent 0 = - 1022"
proof (rule ccontr)
  assume "exponent 0 \<noteq> - 1022"
  then have "- 1022 < exponent 0" using exponent_bounds[of 0] by linarith
  then have "(2::real) powi (exponent 0) \<le> 0" by (rule exponent_lower)
  moreover have "(0::real) < 2 powi (exponent 0)" by simp
  ultimately show False by linarith
qed

lemma round_magnitude_zero: "round_magnitude 0 = 0"
  by (simp add: round_magnitude_core round_core_def round_half_even_def)

lemma round_magnitude_mono: "x \<le> y \<Longrightarrow> round_magnitude x \<le> round_magnitude y"
  using round_core_mono[of x y] by (simp add: round_magnitude_core min_def)

lemma round_magnitude_nonneg: "0 \<le> x \<Longrightarrow> 0 \<le> round_magnitude x"
  using round_magnitude_mono[of 0 x] by (simp add: round_magnitude_zero)

lemma round_double_mono:
  assumes "x \<le> y"
  shows "round_double x \<le> round_double y"
proof -
  consider "y < 0" | "x < 0" "0 \<le> y" | "0 \<le> x" by linarith
  then show ?thesis
  proof cases
    case 1
    then have "x < 0" using assms by simp
    moreover have "round_magnitude (- y) \<le> round_magnitude (- x)"
      using assms by (intro round_magnitude_mono) simp
    ultimately show ?thesis using 1 by (simp add: round_double_def)
  next
    case 2
    have "0 \<le> round_magnitude (- x)" using 2 by (intro round_magnitude_nonneg) simp
    moreover have "0 \<le> round_magnitude y" using 2 by (intro round_magnitude_nonneg)
    ultimately show ?thesis using 2 by (simp add: round_double_def)
  next
    case 3
    then show ?thesis using assms round_magnitude_mono[OF assms] by (simp add: round_double_def)
  qed
qed

lemma round_double_minus: "round_double (- x) = - round_double x"
  by (cases "x = 0") (auto simp: round_double_def round_magnitude_zero)

lemma round_double_zero: "round_double 0 = 0"
  by (simp add: round_double_def round_magnitude_zero)

lemma round_double_nonneg: "0 \<le> x \<Longrightarrow> 0 \<le> round_double x"
  using round_double_mono[of 0 x] by (simp add: round_double_zero)

lemma abs_round_double_pos: "0 \<le> x \<Longrightarrow> \<bar>round_double x\<bar> = round_double x"
  using round_double_nonneg[of x] by simp

lemma abs_round_double_neg: "x \<le> 0 \<Longrightarrow> \<bar>round_double x\<bar> = round_double (- x)"
  using round_double_nonneg[of "- x"] by (simp add: round_double_minus)

lemma round_double_of_int:
  assumes "\<bar>m\<bar> < 2 ^ 53"
  shows "round_double (of_int m) = of_int m"
proof -
  have pos: "round_magnitude (of_int k) = of_int k" if k: "0 \<le> k" "k < 2 ^ 53" for k :: int
  proof -
    let ?e = "exponent (of_int k)"
    have e52: "?e \<le> 52"
    proof (cases "- 1022 < ?e")
      case True
      then have "2 powi ?e \<le> (of_int k :: real)" by (rule exponent_lower)
      also have "(of_int k :: real) < 2 powi 53" using k(2)
        by (metis of_int_less_iff of_int_numeral of_int_power power_int_numeral)
      finally have "?e < 53"
        by (metis linorder_not_le one_le_numeral power_int_increasing)
      then show ?thesis by simp
    next
      case False
      then show ?thesis by simp
    qed
    define s where "s = nat (52 - ?e)"
    have u: "(2::real) powi (?e - 52) = 1 / 2 ^ s"
      using e52 by (simp add: s_def power_int_def field_simps)
    have "of_int k / (2 powi (?e - 52)) = (of_int (k * 2 ^ s) :: real)"
      unfolding u by simp
    then have r: "round_half_even (of_int k / (2 powi (?e - 52))) = k * 2 ^ s"
      by (simp only: round_half_even_of_int)
    have "round_core (of_int k) = 2 powi (?e - 52) * of_int (k * 2 ^ s)"
      by (simp only: round_core_def r)
    then have c: "round_core (of_int k) = of_int k"
      unfolding u by simp
    have "(of_int k :: real) < 2 powi 53" using k(2)
      by (metis of_int_less_iff of_int_numeral of_int_power power_int_numeral)
    also have "(2::real) powi 53 \<le> 2 powi 1024" by (intro power_int_increasing) auto
    finally show ?thesis by (simp add: round_magnitude_core c)
  qed
  show ?thesis
  proof (cases "m < 0")
    case True
    then have "round_magnitude (of_int (- m)) = of_int (- m)" using assms by (intro pos) auto
    with True show ?thesis by (simp add: round_double_def)
  next
    case False
    then have "round_magnitude (of_int m) = of_int m" using assms by (intro pos) auto
    with False show ?thesis by (simp add: round_double_def)
  qed
qed

lemma round_double_numeral:
  "numeral n < (2 ^ 53 :: int) \<Longrightarrow> round_double (numeral n) = numeral n"
  using round_double_of_int[of "numeral n"] by simp

lemma round_double_neg_numeral:
  "numeral n < (2 ^ 53 :: int) \<Longrightarrow> round_double (- numeral n) = - numeral n"
  using round_double_of_int[of "- numeral n"] by simp

lemma round_double_one: "round_double 1 = 1"
  using round_double_of_int[of 1] by simp

lemma abs_round_double: "\<bar>round_double x\<bar> = round_double \<bar>x\<bar>"
  by (cases "0 \<le> x") (simp_all add: abs_round_double_pos abs_round_double_neg)

lemma abs_round_double_mono: "\<bar>x\<bar> \<le> \<bar>y\<bar> \<Longrightarrow> \<bar>round_double x\<bar> \<le> \<bar>round_double y\<bar>"
  by (simp only: abs_round_double round_double_mono)

text \<open>Evaluation of the rounding at a number whose exponent is given.\<close>

lemma round_core_eval:
  assumes "- 1022 \<le> e" "e \<le> 1023" "2 powi e \<le> x" "x < 2 powi (e + 1)"
  shows "round_core x = 2 powi (e - 52) * of_int (round_half_even (x / 2 powi (e - 52)))"
  using exponent_eq[OF assms] by (simp add: round_core_def)

lemmas round_double_unfold = round_double_def round_magnitude_def round_half_even_def

lemmas round_double_exact =
  round_double_numeral round_double_neg_numeral round_double_zero round_double_one

subsection \<open>The loop invariant\<close>

text \<open>
  On an ascending array, every key left of \<open>left\<close> is below the query and every key right
  of \<open>right\<close> is above it; the loop keeps that, so it returns an index holding the query or
  ends with \<open>left = right + 1\<close> between the two neighbours of the query.
\<close>

lemma search_loop_invariant:
  assumes "sorted ts" "0 \<le> l" "r < int (length ts)" "l \<le> r + 1"
    "\<forall>j. int j < l \<longrightarrow> ts ! j < x"
    "\<forall>j. r < int j \<and> j < length ts \<longrightarrow> x < ts ! j"
  shows "case search_loop ts x l r of
           Found m \<Rightarrow> l \<le> m \<and> m \<le> r \<and> ts ! nat m = x
         | Crossed l' r' \<Rightarrow> l' = r' + 1 \<and> l \<le> l' \<and> r' \<le> r
              \<and> (\<forall>j. int j < l' \<longrightarrow> ts ! j < x)
              \<and> (\<forall>j. r' < int j \<and> j < length ts \<longrightarrow> x < ts ! j)"
  using assms
proof (induction ts x l r rule: search_loop.induct)
  case (1 ts x l r)
  note srt = \<open>sorted ts\<close> and l0 = \<open>0 \<le> l\<close> and rn = \<open>r < int (length ts)\<close>
    and below = \<open>\<forall>j. int j < l \<longrightarrow> ts ! j < x\<close>
    and above = \<open>\<forall>j. r < int j \<and> j < length ts \<longrightarrow> x < ts ! j\<close>
  show ?case
  proof (cases "l \<le> r")
    case False
    with \<open>l \<le> r + 1\<close> have "l = r + 1" by simp
    with False below above show ?thesis
      by (simp add: search_loop.simps)
  next
    case True
    define mid where "mid = (l + r) div 2"
    have m: "l \<le> mid" "mid \<le> r" using True by (auto simp: mid_def)
    have mn: "nat mid < length ts" using m l0 rn by simp
    have rd: "read ts mid = Some (ts ! nat mid)"
      using m l0 rn by (simp add: read_def)
    consider (eq) "ts ! nat mid = x" | (lt) "ts ! nat mid < x" | (gt) "x < ts ! nat mid"
      by linarith
    then show ?thesis
    proof cases
      case eq
      then have "search_loop ts x l r = Found mid"
        using True rd by (subst search_loop.simps) (simp add: mid_def js_strict_eq_def)
      with m eq show ?thesis by simp
    next
      case lt
      have unfold: "search_loop ts x l r = search_loop ts x (mid + 1) r"
        using True rd lt
        by (subst search_loop.simps) (simp add: mid_def js_strict_eq_def js_lt_def)
      have neq: "\<not> js_strict_eq (read ts mid) (Some x)"
        using rd lt by (simp add: js_strict_eq_def)
      have jl: "js_lt (read ts mid) (Some x)"
        using rd lt by (simp add: js_lt_def)
      have below': "\<forall>j. int j < mid + 1 \<longrightarrow> ts ! j < x"
      proof (intro allI impI)
        fix j assume "int j < mid + 1"
        then have "j \<le> nat mid" by simp
        then have "ts ! j \<le> ts ! nat mid" using srt mn by (simp add: sorted_nth_mono)
        with lt show "ts ! j < x" by simp
      qed
      have "case search_loop ts x (mid + 1) r of
           Found m \<Rightarrow> mid + 1 \<le> m \<and> m \<le> r \<and> ts ! nat m = x
         | Crossed l' r' \<Rightarrow> l' = r' + 1 \<and> mid + 1 \<le> l' \<and> r' \<le> r
              \<and> (\<forall>j. int j < l' \<longrightarrow> ts ! j < x)
              \<and> (\<forall>j. r' < int j \<and> j < length ts \<longrightarrow> x < ts ! j)"
        using "1.IH"(1)[OF True mid_def neq jl srt _ rn _ below' above] m l0 by simp
      with m show ?thesis unfolding unfold by (auto split: loop_exit.splits)
    next
      case gt
      have unfold: "search_loop ts x l r = search_loop ts x l (mid - 1)"
        using True rd gt
        by (subst search_loop.simps) (simp add: mid_def js_strict_eq_def js_lt_def)
      have neq: "\<not> js_strict_eq (read ts mid) (Some x)"
        using rd gt by (simp add: js_strict_eq_def)
      have jl: "\<not> js_lt (read ts mid) (Some x)"
        using rd gt by (simp add: js_lt_def)
      have above': "\<forall>j. mid - 1 < int j \<and> j < length ts \<longrightarrow> x < ts ! j"
      proof (intro allI impI)
        fix j assume "mid - 1 < int j \<and> j < length ts"
        then have "nat mid \<le> j" "j < length ts" by linarith+
        then have "ts ! nat mid \<le> ts ! j" using srt by (simp add: sorted_nth_mono)
        with gt show "x < ts ! j" by simp
      qed
      have "case search_loop ts x l (mid - 1) of
           Found m \<Rightarrow> l \<le> m \<and> m \<le> mid - 1 \<and> ts ! nat m = x
         | Crossed l' r' \<Rightarrow> l' = r' + 1 \<and> l \<le> l' \<and> r' \<le> mid - 1
              \<and> (\<forall>j. int j < l' \<longrightarrow> ts ! j < x)
              \<and> (\<forall>j. r' < int j \<and> j < length ts \<longrightarrow> x < ts ! j)"
        using "1.IH"(2)[OF True mid_def neq jl srt l0 _ _ below above'] m rn by simp
      with m show ?thesis unfolding unfold by (auto split: loop_exit.splits)
    qed
  qed
qed


lemma findClosestIndex_low:
  assumes "ts \<noteq> []" "x \<le> ts ! 0"
  shows "findClosestIndex ts x = 0"
  using assms by (simp add: findClosestIndex_def read_def js_le_def)

lemma findClosestIndex_high:
  assumes "ts \<noteq> []" "ts ! 0 < x" "ts ! (length ts - 1) \<le> x"
  shows "findClosestIndex ts x = int (length ts) - 1"
proof -
  have "nat (int (length ts) - 1) = length ts - 1" by simp
  then show ?thesis
    using assms by (simp add: findClosestIndex_def read_def js_le_def js_ge_def)
qed

lemma findClosestIndex_loop:
  assumes "ts \<noteq> []" "ts ! 0 < x" "x < ts ! (length ts - 1)"
  shows "findClosestIndex ts x =
     (case search_loop ts x 0 (int (length ts) - 1) of
        Found mid \<Rightarrow> mid
      | Crossed left right \<Rightarrow>
          if js_le (abs_diff (read ts left) x) (abs_diff (read ts right) x)
          then left else right)"
proof -
  have "nat (int (length ts) - 1) = length ts - 1" by simp
  then show ?thesis
    using assms
    by (simp add: findClosestIndex_def read_def js_le_def js_ge_def Let_def
             split: loop_exit.splits)
qed

lemma search_loop_interior:
  assumes srt: "sorted ts" and ne: "ts \<noteq> []"
    and lo: "ts ! 0 < x" and hi: "x < ts ! (length ts - 1)"
  shows "case search_loop ts x 0 (int (length ts) - 1) of
           Found m \<Rightarrow> 0 < m \<and> m < int (length ts) - 1 \<and> ts ! nat m = x
         | Crossed l r \<Rightarrow> l = r + 1 \<and> 0 \<le> r \<and> l < int (length ts)
              \<and> ts ! nat r < x \<and> x < ts ! nat l
              \<and> (\<forall>j. int j < l \<longrightarrow> ts ! j < x)
              \<and> (\<forall>j. r < int j \<and> j < length ts \<longrightarrow> x < ts ! j)"
proof -
  let ?n = "int (length ts)"
  have n: "0 < length ts" using ne by simp
  have last: "nat (?n - 1) = length ts - 1" by simp
  have inv: "case search_loop ts x 0 (?n - 1) of
           Found m \<Rightarrow> 0 \<le> m \<and> m \<le> ?n - 1 \<and> ts ! nat m = x
         | Crossed l' r' \<Rightarrow> l' = r' + 1 \<and> 0 \<le> l' \<and> r' \<le> ?n - 1
              \<and> (\<forall>j. int j < l' \<longrightarrow> ts ! j < x)
              \<and> (\<forall>j. r' < int j \<and> j < length ts \<longrightarrow> x < ts ! j)"
    by (rule search_loop_invariant[OF srt]) (use n in auto)
  show ?thesis
  proof (cases "search_loop ts x 0 (?n - 1)")
    case (Found m)
    with inv have m: "0 \<le> m" "m \<le> ?n - 1" "ts ! nat m = x" by simp_all
    have "m \<noteq> 0" using m(3) lo by auto
    moreover have "m \<noteq> ?n - 1" using m(3) hi last by auto
    ultimately show ?thesis using Found m by simp
  next
    case (Crossed l r)
    with inv have c: "l = r + 1" "0 \<le> l" "r \<le> ?n - 1"
      "\<forall>j. int j < l \<longrightarrow> ts ! j < x"
      "\<forall>j. r < int j \<and> j < length ts \<longrightarrow> x < ts ! j" by simp_all
    have r0: "0 \<le> r"
    proof (rule ccontr)
      assume "\<not> 0 \<le> r"
      then have "r < int 0 \<and> 0 < length ts" using n by simp
      with c(5) have "x < ts ! 0" by blast
      with lo show False by simp
    qed
    have ln: "l < ?n"
    proof (rule ccontr)
      assume "\<not> l < ?n"
      then have "int (length ts - 1) < l" using n by linarith
      with c(4) have "ts ! (length ts - 1) < x" by blast
      with hi show False by simp
    qed
    have "int (nat r) < l" using r0 c(1) by simp
    with c(4) have below: "ts ! nat r < x" by blast
    have "r < int (nat l) \<and> nat l < length ts" using c(1) r0 ln by simp
    with c(5) have above: "x < ts ! nat l" by blast
    show ?thesis using Crossed c r0 ln below above by simp
  qed
qed

text \<open>
  What the function returns, in the three regions of the query: a key below the query is
  returned only when every key to its right is above the query and has a larger rounded
  distance; a key above the query only when every key to its left is below the query and
  has a rounded distance at least as large.
\<close>

lemma findClosestIndex_facts:
  fixes ts :: "real list" and x :: real
  assumes srt: "sorted ts" and ne: "ts \<noteq> []"
  defines "i \<equiv> findClosestIndex ts x"
  shows "0 \<le> i \<and> i < int (length ts)
    \<and> (ts ! nat i < x \<longrightarrow> (\<forall>j. i < int j \<and> j < length ts \<longrightarrow>
          x < ts ! j \<and> round_double (x - ts ! nat i) < round_double (ts ! j - x)))
    \<and> (x < ts ! nat i \<longrightarrow> (\<forall>j. int j < i \<longrightarrow>
          ts ! j < x \<and> round_double (ts ! nat i - x) \<le> round_double (x - ts ! j)))"
proof -
  let ?n = "int (length ts)"
  have n: "0 < length ts" using ne by simp
  have last: "nat (?n - 1) = length ts - 1" by simp
  consider (low) "x \<le> ts ! 0" | (high) "ts ! 0 < x" "ts ! (length ts - 1) \<le> x"
    | (mid) "ts ! 0 < x" "x < ts ! (length ts - 1)" by linarith
  then show ?thesis
  proof cases
    case low
    then have "i = 0" unfolding i_def using ne by (rule findClosestIndex_low[rotated])
    with low n show ?thesis by simp
  next
    case high
    then have "i = ?n - 1" unfolding i_def using ne by (simp add: findClosestIndex_high)
    with high n last show ?thesis by simp
  next
    case mid
    note fci = findClosestIndex_loop[OF ne mid]
    note sl = search_loop_interior[OF srt ne mid]
    show ?thesis
    proof (cases "search_loop ts x 0 (?n - 1)")
      case (Found m)
      with fci sl show ?thesis unfolding i_def by simp
    next
      case (Crossed l r)
      with sl have c: "l = r + 1" "0 \<le> r" "l < ?n" "ts ! nat r < x" "x < ts ! nat l"
        "\<forall>j. int j < l \<longrightarrow> ts ! j < x"
        "\<forall>j. r < int j \<and> j < length ts \<longrightarrow> x < ts ! j" by auto
      have rl: "read ts l = Some (ts ! nat l)" "read ts r = Some (ts ! nat r)"
        using c by (simp_all add: read_def)
      have dl: "\<bar>round_double (ts ! nat l - x)\<bar> = round_double (ts ! nat l - x)"
        using c(5) by (intro abs_round_double_pos) simp
      have dr: "\<bar>round_double (ts ! nat r - x)\<bar> = round_double (x - ts ! nat r)"
        using c(4) abs_round_double_neg[of "ts ! nat r - x"] by simp
      have i: "i = (if round_double (ts ! nat l - x) \<le> round_double (x - ts ! nat r)
                    then l else r)"
        unfolding i_def fci Crossed using rl by (simp add: js_le_def abs_diff_def dl dr)
      show ?thesis
      proof (cases "round_double (ts ! nat l - x) \<le> round_double (x - ts ! nat r)")
        case True
        with i have il: "i = l" by simp
        have "\<forall>j. int j < l \<longrightarrow>
            ts ! j < x \<and> round_double (ts ! nat l - x) \<le> round_double (x - ts ! j)"
        proof (intro allI impI)
          fix j assume j: "int j < l"
          then have "j \<le> nat r" using c(1,2) by simp
          moreover have "nat r < length ts" using c(1,2,3) by simp
          ultimately have "ts ! j \<le> ts ! nat r" using srt by (simp add: sorted_nth_mono)
          then have "round_double (x - ts ! nat r) \<le> round_double (x - ts ! j)"
            by (intro round_double_mono) simp
          with True c(6) j
          show "ts ! j < x \<and> round_double (ts ! nat l - x) \<le> round_double (x - ts ! j)"
            by force
        qed
        moreover have "\<not> ts ! nat l < x" using c(5) by simp
        moreover have "0 \<le> l \<and> l < ?n" using c(1,2,3) by simp
        ultimately show ?thesis unfolding il by blast
      next
        case False
        with i have ir: "i = r" by simp
        have "\<forall>j. r < int j \<and> j < length ts \<longrightarrow>
            x < ts ! j \<and> round_double (x - ts ! nat r) < round_double (ts ! j - x)"
        proof (intro allI impI)
          fix j assume j: "r < int j \<and> j < length ts"
          then have "nat l \<le> j" using c(1,2) by linarith
          then have "ts ! nat l \<le> ts ! j" using srt j by (simp add: sorted_nth_mono)
          then have "round_double (ts ! nat l - x) \<le> round_double (ts ! j - x)"
            by (intro round_double_mono) simp
          with False c(7) j
          show "x < ts ! j \<and> round_double (x - ts ! nat r) < round_double (ts ! j - x)"
            by force
        qed
        moreover have "\<not> x < ts ! nat r" using c(4) by simp
        moreover have "0 \<le> r \<and> r < ?n" using c(1,2,3) by simp
        ultimately show ?thesis unfolding ir by blast
      qed
    qed
  qed
qed

subsection \<open>Exact matches, the indices read, and the shrinking interval\<close>

lemmas findClosestIndex_unfold =
  findClosestIndex_def Let_def read_def js_le_def js_ge_def js_lt_def js_strict_eq_def
  abs_diff_def search_loop.simps

lemmas findClosestIndex_eval = findClosestIndex_unfold round_double_exact

lemma search_loop_exact:
  fixes ts :: "real list"
  assumes srt: "sorted ts" and i: "i < length ts"
  shows "\<exists>m. search_loop ts (ts ! i) 0 (int (length ts) - 1) = Found m
             \<and> 0 \<le> m \<and> m < int (length ts) \<and> ts ! nat m = ts ! i"
proof -
  let ?n = "int (length ts)"
  have inv: "case search_loop ts (ts ! i) 0 (?n - 1) of
           Found m \<Rightarrow> 0 \<le> m \<and> m \<le> ?n - 1 \<and> ts ! nat m = ts ! i
         | Crossed l' r' \<Rightarrow> l' = r' + 1 \<and> 0 \<le> l' \<and> r' \<le> ?n - 1
              \<and> (\<forall>j. int j < l' \<longrightarrow> ts ! j < ts ! i)
              \<and> (\<forall>j. r' < int j \<and> j < length ts \<longrightarrow> ts ! i < ts ! j)"
    by (rule search_loop_invariant[OF srt]) (use i in auto)
  show ?thesis
  proof (cases "search_loop ts (ts ! i) 0 (?n - 1)")
    case (Found m)
    with inv show ?thesis by simp
  next
    case (Crossed l r)
    with inv have c: "l = r + 1" "\<forall>j. int j < l \<longrightarrow> ts ! j < ts ! i"
      "\<forall>j. r < int j \<and> j < length ts \<longrightarrow> ts ! i < ts ! j" by auto
    have "int i < l \<or> (r < int i \<and> i < length ts)" using c(1) i by linarith
    with c(2,3) have "ts ! i < ts ! i" by blast
    then show ?thesis by simp
  qed
qed

lemma search_loop_reads_unfold:
  assumes "l \<le> r"
  shows "search_loop_reads ts x l r =
     (l + r) div 2 # (if js_strict_eq (read ts ((l + r) div 2)) (Some x) then []
        else (l + r) div 2 # (if js_lt (read ts ((l + r) div 2)) (Some x)
                then search_loop_reads ts x ((l + r) div 2 + 1) r
                else search_loop_reads ts x l ((l + r) div 2 - 1)))"
  using assms by (subst search_loop_reads.simps) (simp add: Let_def)

lemma search_loop_reads_range:
  "\<forall>i \<in> set (search_loop_reads ts x l r). l \<le> i \<and> i \<le> r"
proof (induction ts x l r rule: search_loop_reads.induct)
  case (1 ts x l r)
  show ?case
  proof (cases "l \<le> r")
    case False
    then show ?thesis by (simp add: search_loop_reads.simps)
  next
    case True
    define mid where "mid = (l + r) div 2"
    have m: "l \<le> mid" "mid \<le> r" using True by (auto simp: mid_def)
    note u = search_loop_reads_unfold[OF True, of ts x, folded mid_def]
    consider (eq) "js_strict_eq (read ts mid) (Some x)"
      | (lt) "\<not> js_strict_eq (read ts mid) (Some x)" "js_lt (read ts mid) (Some x)"
      | (gt) "\<not> js_strict_eq (read ts mid) (Some x)" "\<not> js_lt (read ts mid) (Some x)"
      by blast
    then show ?thesis
    proof cases
      case eq
      with m show ?thesis unfolding u by simp
    next
      case lt
      from "1.IH"(1)[OF True mid_def lt] m lt show ?thesis unfolding u by auto
    next
      case gt
      from "1.IH"(2)[OF True mid_def gt] m gt show ?thesis unfolding u by auto
    qed
  qed
qed

lemma search_loop_reads_length:
  "length (search_loop_reads ts x l r) \<le> 2 * search_loop_iterations ts x l r"
proof (induction ts x l r rule: search_loop_reads.induct)
  case (1 ts x l r)
  show ?case
  proof (cases "l \<le> r")
    case False
    then show ?thesis by (simp add: search_loop_reads.simps)
  next
    case True
    define mid where "mid = (l + r) div 2"
    note u = search_loop_reads_unfold[OF True, of ts x, folded mid_def]
    have v: "search_loop_iterations ts x l r =
       (if js_strict_eq (read ts mid) (Some x) then 1
        else if js_lt (read ts mid) (Some x)
             then 1 + search_loop_iterations ts x (mid + 1) r
             else 1 + search_loop_iterations ts x l (mid - 1))"
      using True by (subst search_loop_iterations.simps) (simp add: Let_def mid_def)
    consider (eq) "js_strict_eq (read ts mid) (Some x)"
      | (lt) "\<not> js_strict_eq (read ts mid) (Some x)" "js_lt (read ts mid) (Some x)"
      | (gt) "\<not> js_strict_eq (read ts mid) (Some x)" "\<not> js_lt (read ts mid) (Some x)"
      by blast
    then show ?thesis
    proof cases
      case eq
      then show ?thesis unfolding u v by simp
    next
      case lt
      from "1.IH"(1)[OF True mid_def lt] lt show ?thesis unfolding u v by simp
    next
      case gt
      from "1.IH"(2)[OF True mid_def gt] gt show ?thesis unfolding u v by simp
    qed
  qed
qed

lemma search_loop_iterations_bound:
  "search_loop_iterations ts x l r \<le> nat (r - l + 1)"
proof (induction ts x l r rule: search_loop_iterations.induct)
  case (1 ts x l r)
  show ?case
  proof (cases "l \<le> r")
    case False
    then show ?thesis by (simp add: search_loop_iterations.simps)
  next
    case True
    define mid where "mid = (l + r) div 2"
    have m: "l \<le> mid" "mid \<le> r" using True by (auto simp: mid_def)
    have v: "search_loop_iterations ts x l r =
       (if js_strict_eq (read ts mid) (Some x) then 1
        else if js_lt (read ts mid) (Some x)
             then 1 + search_loop_iterations ts x (mid + 1) r
             else 1 + search_loop_iterations ts x l (mid - 1))"
      using True by (subst search_loop_iterations.simps) (simp add: Let_def mid_def)
    consider (eq) "js_strict_eq (read ts mid) (Some x)"
      | (lt) "\<not> js_strict_eq (read ts mid) (Some x)" "js_lt (read ts mid) (Some x)"
      | (gt) "\<not> js_strict_eq (read ts mid) (Some x)" "\<not> js_lt (read ts mid) (Some x)"
      by blast
    then show ?thesis
    proof cases
      case eq
      with True show ?thesis unfolding v by simp
    next
      case lt
      from "1.IH"(1)[OF True mid_def lt] m lt show ?thesis unfolding v by simp
    next
      case gt
      from "1.IH"(2)[OF True mid_def gt] m gt show ?thesis unfolding v by simp
    qed
  qed
qed

lemma loop_body_shrinks:
  assumes "left \<le> right" "loop_body ts x (left, right) = Some (left', right')"
  shows "right' - left' < right - left"
proof -
  define mid where "mid = (left + right) div 2"
  have m: "left \<le> mid" "mid \<le> right" using assms(1) by (auto simp: mid_def)
  from assms(2) have "(left' = mid + 1 \<and> right' = right) \<or> (left' = left \<and> right' = mid - 1)"
    by (auto simp: loop_body_def Let_def mid_def split: if_splits)
  with m show ?thesis by auto
qed

subsection \<open>The claims about \<open>findClosestIndex\<close>\<close>

text \<open>
  Claim C1, as stated: the index returned points at a closest key, that is
  \<open>|keys[result] - query| \<le> |keys[j] - query|\<close> for every valid index \<open>j\<close>. The code
  compares the two rounded differences. For the doubles \<open>keys = [2^-60, 2]\<close> and
  \<open>query = 1\<close> the difference \<open>2^-60 - 1\<close> rounds to \<open>-1\<close>, both distances are computed
  as \<open>1\<close>, and index \<open>1\<close> is returned although the key at index \<open>0\<close> is nearer.
\<close>

theorem findClosestIndex_nearest_counterexample:
  "sorted [1 / 2 ^ 60, 2 :: real] \<and> round_double (1 / 2 ^ 60) = 1 / 2 ^ 60
   \<and> findClosestIndex [1 / 2 ^ 60, 2] 1 = 1
   \<and> \<bar>[1 / 2 ^ 60, 2 :: real] ! 0 - 1\<bar>
       < \<bar>[1 / 2 ^ 60, 2 :: real] ! nat (findClosestIndex [1 / 2 ^ 60, 2] 1) - 1\<bar>"
proof -
  have v: "findClosestIndex [1 / 2 ^ 60, 2] 1 = 1"
    by (simp add: findClosestIndex_unfold round_double_unfold round_core_eval[of 0]
          round_core_eval[of "- 1"])
  have d: "round_double (1 / 2 ^ 60) = 1 / 2 ^ 60"
    by (simp add: round_double_unfold round_core_eval[of "- 60"])
  show ?thesis unfolding v using d by simp
qed

text \<open>
  Claim C1, amended: for every non-empty ascending key sequence and every real query, the
  index returned by \<open>findClosestIndex\<close> is a valid index and points at a key that is
  closest by the distances the code computes, the absolute values of the differences
  rounded to double: no key at a valid index \<open>j\<close> has a smaller computed distance. A key
  that is nearer in exact arithmetic has the same computed distance.
\<close>

theorem findClosestIndex_nearest:
  fixes keys :: "real list" and query :: real
  assumes srt: "sorted keys" and ne: "keys \<noteq> []" and j: "j < length keys"
  shows "0 \<le> findClosestIndex keys query \<and> findClosestIndex keys query < int (length keys)
    \<and> \<bar>round_double (keys ! nat (findClosestIndex keys query) - query)\<bar>
        \<le> \<bar>round_double (keys ! j - query)\<bar>
    \<and> (\<bar>keys ! j - query\<bar> < \<bar>keys ! nat (findClosestIndex keys query) - query\<bar>
        \<longrightarrow> \<bar>round_double (keys ! nat (findClosestIndex keys query) - query)\<bar>
            = \<bar>round_double (keys ! j - query)\<bar>)"
proof -
  define i where "i = findClosestIndex keys query"
  note f = findClosestIndex_facts[OF srt ne, of query, folded i_def]
  from f have rng: "0 \<le> i" "i < int (length keys)" by simp_all
  have main: "\<bar>round_double (keys ! nat i - query)\<bar> \<le> \<bar>round_double (keys ! j - query)\<bar>"
  proof (cases "int j < i")
    case True
    then have "j \<le> nat i" "nat i < length keys" using rng by simp_all
    then have le: "keys ! j \<le> keys ! nat i" using srt by (simp add: sorted_nth_mono)
    show ?thesis
    proof (cases "query < keys ! nat i")
      case True
      with f \<open>int j < i\<close> have b: "keys ! j < query"
        "round_double (keys ! nat i - query) \<le> round_double (query - keys ! j)" by blast+
      have "\<bar>round_double (keys ! nat i - query)\<bar> = round_double (keys ! nat i - query)"
        using True by (intro abs_round_double_pos) simp
      moreover have "\<bar>round_double (keys ! j - query)\<bar> = round_double (query - keys ! j)"
        using b(1) abs_round_double_neg[of "keys ! j - query"] by simp
      ultimately show ?thesis using b(2) by simp
    next
      case False
      with le show ?thesis by (intro abs_round_double_mono) simp
    qed
  next
    case False
    show ?thesis
    proof (cases "i < int j")
      case True
      then have "nat i \<le> j" by simp
      then have le: "keys ! nat i \<le> keys ! j" using srt j by (simp add: sorted_nth_mono)
      show ?thesis
      proof (cases "keys ! nat i < query")
        case True
        with f \<open>i < int j\<close> j have a: "query < keys ! j"
          "round_double (query - keys ! nat i) < round_double (keys ! j - query)" by blast+
        have "\<bar>round_double (keys ! j - query)\<bar> = round_double (keys ! j - query)"
          using a(1) by (intro abs_round_double_pos) simp
        moreover have "\<bar>round_double (keys ! nat i - query)\<bar>
            = round_double (query - keys ! nat i)"
          using True abs_round_double_neg[of "keys ! nat i - query"] by simp
        ultimately show ?thesis using a(2) by simp
      next
        case False
        with le show ?thesis by (intro abs_round_double_mono) simp
      qed
    next
      case False
      with \<open>\<not> int j < i\<close> have "nat i = j" by simp
      then show ?thesis by simp
    qed
  qed
  have tie: "\<bar>keys ! j - query\<bar> < \<bar>keys ! nat i - query\<bar>
        \<longrightarrow> \<bar>round_double (keys ! nat i - query)\<bar> = \<bar>round_double (keys ! j - query)\<bar>"
  proof
    assume "\<bar>keys ! j - query\<bar> < \<bar>keys ! nat i - query\<bar>"
    then have "\<bar>round_double (keys ! j - query)\<bar> \<le> \<bar>round_double (keys ! nat i - query)\<bar>"
      by (intro abs_round_double_mono) simp
    with main
    show "\<bar>round_double (keys ! nat i - query)\<bar> = \<bar>round_double (keys ! j - query)\<bar>"
      by simp
  qed
  from rng main tie show ?thesis unfolding i_def by blast
qed

theorem findClosestIndex_nearest_witness:
  "findClosestIndex [0, 10, 20, 30, 40] 26 = 3
   \<and> \<bar>round_double ([0, 10, 20, 30, 40] ! nat (findClosestIndex [0, 10, 20, 30, 40] 26) - 26)\<bar>
       \<le> \<bar>round_double ([0, 10, 20, 30, 40 :: real] ! 2 - 26)\<bar>"
proof -
  have v: "findClosestIndex [0, 10, 20, 30, 40] 26 = 3"
    by (simp add: findClosestIndex_eval)
  have s: "sorted [0, 10, 20, 30, 40 :: real]" by simp
  have n: "[0, 10, 20, 30, 40 :: real] \<noteq> []" by simp
  have j: "2 < length [0, 10, 20, 30, 40 :: real]" by simp
  from findClosestIndex_nearest[OF s n j, of 26] v show ?thesis by blast
qed

text \<open>
  Claim C2, as stated: after the loop \<open>findClosestIndex\<close> returns \<open>left\<close> whenever
  \<open>|keys[left] - query| \<le> |keys[right] - query|\<close> and \<open>right\<close> otherwise. For the doubles
  \<open>keys = [-128, 128]\<close> and \<open>query = -3 / 2^49\<close> the loop ends with \<open>left = 1\<close> and
  \<open>right = 0\<close>, the left distance is the larger one, both differences round to magnitude
  \<open>128\<close>, and \<open>left\<close> is returned.
\<close>

theorem findClosestIndex_tie_break_counterexample:
  "sorted [- 128, 128 :: real] \<and> round_double (- 3 / 2 ^ 49) = - 3 / 2 ^ 49
   \<and> [- 128, 128 :: real] ! 0 < - 3 / 2 ^ 49 \<and> - 3 / 2 ^ 49 < [- 128, 128 :: real] ! 1
   \<and> - 3 / 2 ^ 49 \<notin> set [- 128, 128 :: real]
   \<and> search_loop [- 128, 128] (- 3 / 2 ^ 49) 0 (int (length [- 128, 128 :: real]) - 1)
       = Crossed 1 0
   \<and> \<bar>[- 128, 128 :: real] ! nat 0 - (- 3 / 2 ^ 49)\<bar>
       < \<bar>[- 128, 128 :: real] ! nat 1 - (- 3 / 2 ^ 49)\<bar>
   \<and> findClosestIndex [- 128, 128] (- 3 / 2 ^ 49) = 1"
proof -
  have v: "findClosestIndex [- 128, 128] (- 3 / 2 ^ 49) = 1"
    by (simp add: findClosestIndex_unfold round_double_unfold round_core_eval[of 7]
          round_core_eval[of 6])
  have d: "round_double (- 3 / 2 ^ 49) = - 3 / 2 ^ 49"
    by (simp add: round_double_unfold round_core_eval[of "- 48"])
  have l: "search_loop [- 128, 128] (- 3 / 2 ^ 49) 0 (int (length [- 128, 128 :: real]) - 1)
       = Crossed 1 0"
    by (simp add: findClosestIndex_eval)
  show ?thesis unfolding v l using d by simp
qed

text \<open>
  Claim C2, amended: for a non-empty ascending key sequence and a query strictly between
  the first and the last key that equals no key, the loop ends with \<open>left = right + 1\<close>,
  both valid indices, and \<open>findClosestIndex\<close> returns \<open>left\<close> when the rounded left
  distance is at most the rounded right distance and \<open>right\<close> otherwise. In particular it
  returns \<open>left\<close> whenever \<open>|keys[left] - query| \<le> |keys[right] - query|\<close>, and on an exact
  tie the key returned is the one above the query.
\<close>

theorem findClosestIndex_tie_break:
  fixes keys :: "real list" and query :: real
  assumes srt: "sorted keys" and ne: "keys \<noteq> []"
    and lo: "keys ! 0 < query" and hi: "query < keys ! (length keys - 1)"
    and nomatch: "query \<notin> set keys"
  shows "\<exists>left right.
      search_loop keys query 0 (int (length keys) - 1) = Crossed left right
    \<and> left = right + 1 \<and> 0 \<le> right \<and> left < int (length keys)
    \<and> findClosestIndex keys query =
         (if \<bar>round_double (keys ! nat left - query)\<bar> \<le> \<bar>round_double (keys ! nat right - query)\<bar>
          then left else right)
    \<and> (\<bar>keys ! nat left - query\<bar> \<le> \<bar>keys ! nat right - query\<bar>
         \<longrightarrow> findClosestIndex keys query = left)
    \<and> (\<bar>keys ! nat left - query\<bar> = \<bar>keys ! nat right - query\<bar>
         \<longrightarrow> findClosestIndex keys query = left
             \<and> query \<le> keys ! nat (findClosestIndex keys query))"
proof -
  let ?n = "int (length keys)"
  note sl = search_loop_interior[OF srt ne lo hi]
  note fci = findClosestIndex_loop[OF ne lo hi]
  show ?thesis
  proof (cases "search_loop keys query 0 (?n - 1)")
    case (Found m)
    with sl have "0 < m" "m < ?n - 1" "keys ! nat m = query" by simp_all
    then have "nat m < length keys" "keys ! nat m = query" by linarith+
    then have "query \<in> set keys" using nth_mem by blast
    with nomatch show ?thesis by simp
  next
    case (Crossed l r)
    with sl have c: "l = r + 1" "0 \<le> r" "l < ?n" "keys ! nat r < query" "query < keys ! nat l"
      by auto
    have rl: "read keys l = Some (keys ! nat l)" "read keys r = Some (keys ! nat r)"
      using c by (simp_all add: read_def)
    have i: "findClosestIndex keys query =
        (if \<bar>round_double (keys ! nat l - query)\<bar> \<le> \<bar>round_double (keys ! nat r - query)\<bar>
         then l else r)"
      unfolding fci Crossed using rl by (simp add: js_le_def abs_diff_def)
    have le: "\<bar>keys ! nat l - query\<bar> \<le> \<bar>keys ! nat r - query\<bar>
         \<longrightarrow> findClosestIndex keys query = l"
      using i abs_round_double_mono[of "keys ! nat l - query" "keys ! nat r - query"] by simp
    have tie: "\<bar>keys ! nat l - query\<bar> = \<bar>keys ! nat r - query\<bar>
         \<longrightarrow> findClosestIndex keys query = l
             \<and> query \<le> keys ! nat (findClosestIndex keys query)"
      using le c(5) by simp
    from Crossed c(1,2,3) i le tie show ?thesis by blast
  qed
qed

theorem findClosestIndex_tie_break_witness:
  "search_loop [0, 10] 5 0 (int (length [0, 10 :: real]) - 1) = Crossed 1 0
   \<and> findClosestIndex [0, 10] 5 = 1 \<and> (5 :: real) \<le> [0, 10] ! nat (findClosestIndex [0, 10] 5)"
proof -
  have s: "sorted [0, 10 :: real]" by simp
  have n: "[0, 10 :: real] \<noteq> []" by simp
  have lo: "[0, 10 :: real] ! 0 < 5" by simp
  have hi: "(5 :: real) < [0, 10] ! (length [0, 10 :: real] - 1)" by simp
  have nm: "(5 :: real) \<notin> set [0, 10]" by simp
  have v: "search_loop [0, 10] 5 0 (int (length [0, 10 :: real]) - 1) = Crossed 1 0"
    by (simp add: findClosestIndex_eval)
  from findClosestIndex_tie_break[OF s n lo hi nm] v show ?thesis by auto
qed

text \<open>
  Claim C3, as stated: \<open>findClosestIndex([0, 10], 5)\<close> returns index \<open>0\<close>. It does not.
\<close>

theorem tie_break_example_counterexample: "findClosestIndex [0, 10] 5 \<noteq> 0"
  by (simp add: findClosestIndex_eval)

text \<open>
  Claim C3, amended: \<open>findClosestIndex([0, 10], 5)\<close> returns index \<open>1\<close>. The loop ends
  with \<open>left = 1\<close> and \<open>right = 0\<close>, both at distance 5, and the tie goes to \<open>left\<close>,
  the candidate of the higher index.
\<close>

theorem tie_break_example: "findClosestIndex [0, 10] 5 = 1"
  by (simp add: findClosestIndex_eval)

text \<open>
  Claim C5, as stated: \<open>findClosestIndex\<close> returns the last index whenever
  \<open>query \<ge> keys[last]\<close>. When all keys equal the query, the first test
  \<open>query \<le> keys[0]\<close> wins and the function returns \<open>0\<close>.
\<close>

theorem boundary_clamping_counterexample:
  "sorted [5, 5 :: real] \<and> [5, 5 :: real] ! (length [5, 5 :: real] - 1) \<le> 5
   \<and> findClosestIndex [5, 5] 5 \<noteq> int (length [5, 5 :: real]) - 1"
  by (simp add: findClosestIndex_eval)

text \<open>
  Claim C5, amended: for every non-empty key sequence, \<open>findClosestIndex\<close> returns \<open>0\<close>
  whenever \<open>query \<le> keys[0]\<close>, returns the last index whenever \<open>query \<ge> keys[last]\<close>
  and \<open>query > keys[0]\<close>, and a single-element sequence always yields \<open>0\<close>.
\<close>

theorem boundary_clamping:
  fixes keys :: "real list" and query :: real
  assumes ne: "keys \<noteq> []"
  shows "(query \<le> keys ! 0 \<longrightarrow> findClosestIndex keys query = 0)
    \<and> (keys ! 0 < query \<and> keys ! (length keys - 1) \<le> query
          \<longrightarrow> findClosestIndex keys query = int (length keys) - 1)
    \<and> (length keys = 1 \<longrightarrow> findClosestIndex keys query = 0)"
proof -
  have a: "query \<le> keys ! 0 \<longrightarrow> findClosestIndex keys query = 0"
    using ne by (simp add: findClosestIndex_low)
  have b: "keys ! 0 < query \<and> keys ! (length keys - 1) \<le> query
          \<longrightarrow> findClosestIndex keys query = int (length keys) - 1"
    using ne by (simp add: findClosestIndex_high)
  have c: "length keys = 1 \<longrightarrow> findClosestIndex keys query = 0"
  proof
    assume l: "length keys = 1"
    show "findClosestIndex keys query = 0"
    proof (cases "query \<le> keys ! 0")
      case True
      with a show ?thesis by simp
    next
      case False
      then have "keys ! 0 < query \<and> keys ! (length keys - 1) \<le> query" using l by simp
      with b l show ?thesis by simp
    qed
  qed
  from a b c show ?thesis by blast
qed

theorem boundary_clamping_witness:
  "findClosestIndex [0, 5, 10] (- 100) = 0 \<and> findClosestIndex [0, 5, 10] 1000 = 2
   \<and> findClosestIndex [7] 9 = 0"
proof -
  have n: "[0, 5, 10 :: real] \<noteq> []" "[7 :: real] \<noteq> []" by simp_all
  from boundary_clamping[OF n(1), of "- 100"] boundary_clamping[OF n(1), of 1000]
    boundary_clamping[OF n(2), of 9]
  show ?thesis by simp
qed

text \<open>
  Claim C6, as stated: for ascending keys with duplicates allowed and an interior index
  \<open>i\<close> with \<open>query = keys[i]\<close>, \<open>findClosestIndex\<close> returns \<open>i\<close>. With a duplicated
  key it returns the index the search meets first.
\<close>

theorem exact_match_counterexample:
  "sorted [0, 1, 1, 2 :: real] \<and> (0 :: nat) < 2 \<and> 2 < length [0, 1, 1, 2 :: real] - 1
   \<and> [0, 1, 1, 2 :: real] ! 2 = 1 \<and> findClosestIndex [0, 1, 1, 2] 1 \<noteq> int 2"
  by (simp add: findClosestIndex_eval)

text \<open>
  Claim C6, amended: for ascending keys and an interior index \<open>i\<close> with
  \<open>query = keys[i]\<close>, \<open>findClosestIndex\<close> returns a valid index whose key equals the
  query, and the search loop on that query ends with \<open>return mid\<close>, never at the distance
  comparison; when \<open>keys[i]\<close> occurs at no other index (as in a strictly ascending
  sequence) the index returned is \<open>i\<close>, found by the loop.
\<close>

theorem exact_match:
  fixes keys :: "real list"
  assumes srt: "sorted keys" and i0: "0 < i" and il: "i < length keys - 1"
  shows "0 \<le> findClosestIndex keys (keys ! i)
    \<and> findClosestIndex keys (keys ! i) < int (length keys)
    \<and> keys ! nat (findClosestIndex keys (keys ! i)) = keys ! i
    \<and> (\<exists>mid. search_loop keys (keys ! i) 0 (int (length keys) - 1) = Found mid)
    \<and> ((\<forall>j < length keys. keys ! j = keys ! i \<longrightarrow> j = i)
          \<longrightarrow> findClosestIndex keys (keys ! i) = int i
              \<and> search_loop keys (keys ! i) 0 (int (length keys) - 1) = Found (int i))"
proof -
  let ?n = "int (length keys)"
  let ?q = "keys ! i"
  have i: "i < length keys" using il by simp
  have ne: "keys \<noteq> []" using i by auto
  have last: "nat (?n - 1) = length keys - 1" by simp
  obtain m where m: "search_loop keys ?q 0 (?n - 1) = Found m" "0 \<le> m" "m < ?n"
      "keys ! nat m = ?q"
    using search_loop_exact[OF srt i] by blast
  have rng: "0 \<le> findClosestIndex keys ?q \<and> findClosestIndex keys ?q < ?n"
    using findClosestIndex_facts[OF srt ne, of ?q] by simp
  have key: "keys ! nat (findClosestIndex keys ?q) = ?q"
  proof -
    consider (low) "?q \<le> keys ! 0" | (high) "keys ! 0 < ?q" "keys ! (length keys - 1) \<le> ?q"
      | (mid) "keys ! 0 < ?q" "?q < keys ! (length keys - 1)" by linarith
    then show ?thesis
    proof cases
      case low
      have "keys ! 0 \<le> ?q" using srt i by (simp add: sorted_nth_mono)
      with low show ?thesis using ne by (simp add: findClosestIndex_low)
    next
      case high
      have "?q \<le> keys ! (length keys - 1)" using srt i by (simp add: sorted_nth_mono)
      with high show ?thesis using ne last by (simp add: findClosestIndex_high)
    next
      case mid
      then show ?thesis using m by (simp add: findClosestIndex_loop[OF ne])
    qed
  qed
  have uniq: "(\<forall>j < length keys. keys ! j = ?q \<longrightarrow> j = i)
          \<longrightarrow> findClosestIndex keys ?q = int i \<and> search_loop keys ?q 0 (?n - 1) = Found (int i)"
  proof
    assume u: "\<forall>j < length keys. keys ! j = ?q \<longrightarrow> j = i"
    have "nat (findClosestIndex keys ?q) < length keys" using rng by linarith
    with u key have "nat (findClosestIndex keys ?q) = i" by blast
    then have a: "findClosestIndex keys ?q = int i" using rng by linarith
    have "nat m < length keys" using m(2,3) by linarith
    with u m(4) have "nat m = i" by blast
    then have "m = int i" using m(2) by linarith
    with a m(1) show "findClosestIndex keys ?q = int i
        \<and> search_loop keys ?q 0 (?n - 1) = Found (int i)" by simp
  qed
  from rng key m(1) uniq show ?thesis by blast
qed

theorem exact_match_witness:
  "findClosestIndex [0, 1, 2, 3, 4] ([0, 1, 2, 3, 4] ! 3) = int 3
   \<and> search_loop [0, 1, 2, 3, 4] ([0, 1, 2, 3, 4] ! 3) 0 (int (length [0, 1, 2, 3, 4 :: real]) - 1)
       = Found (int 3)"
proof -
  have s: "sorted [0, 1, 2, 3, 4 :: real]" by simp
  have i0: "(0 :: nat) < 3" by simp
  have il: "3 < length [0, 1, 2, 3, 4 :: real] - 1" by simp
  have u: "\<forall>j < length [0, 1, 2, 3, 4 :: real]. [0, 1, 2, 3, 4 :: real] ! j = [0, 1, 2, 3, 4] ! 3 \<longrightarrow> j = 3"
    by (simp add: nth_Cons' less_Suc_eq all_conj_distrib)
  from exact_match[OF s i0 il] u show ?thesis by blast
qed

text \<open>
  Claim C7. Monotonicity: for a fixed non-empty ascending key sequence and two queries
  \<open>q1 \<le> q2\<close>, the index returned for \<open>q1\<close> is at most the index returned for \<open>q2\<close>.
\<close>

theorem findClosestIndex_mono:
  fixes keys :: "real list" and q1 q2 :: real
  assumes srt: "sorted keys" and ne: "keys \<noteq> []" and q: "q1 \<le> q2"
  shows "findClosestIndex keys q1 \<le> findClosestIndex keys q2"
proof (rule ccontr)
  define i1 where "i1 = findClosestIndex keys q1"
  define i2 where "i2 = findClosestIndex keys q2"
  assume "\<not> findClosestIndex keys q1 \<le> findClosestIndex keys q2"
  then have lt: "i2 < i1" by (simp add: i1_def i2_def)
  note f1 = findClosestIndex_facts[OF srt ne, of q1, folded i1_def]
  note f2 = findClosestIndex_facts[OF srt ne, of q2, folded i2_def]
  from f1 f2 have rng: "0 \<le> i1" "i1 < int (length keys)" "0 \<le> i2" "i2 < int (length keys)"
    by simp_all
  define a where "a = keys ! nat i2"
  define b where "b = keys ! nat i1"
  have "nat i2 \<le> nat i1" "nat i1 < length keys" using lt rng by simp_all
  then have ab: "a \<le> b" unfolding a_def b_def using srt by (simp add: sorted_nth_mono)
  have j1: "int (nat i2) < i1" using lt rng by simp
  have j2: "i2 < int (nat i1) \<and> nat i1 < length keys" using lt rng by simp
  have B: "q1 < b \<Longrightarrow> a < q1 \<and> round_double (b - q1) \<le> round_double (q1 - a)"
    using f1 j1 unfolding a_def b_def by blast
  have A: "a < q2 \<Longrightarrow> q2 < b \<and> round_double (q2 - a) < round_double (b - q2)"
    using f2 j2 unfolding a_def b_def by blast
  have "q1 \<noteq> q2" using lt by (auto simp: i1_def i2_def)
  with q have qq: "q1 < q2" by simp
  consider "q1 < b" | "b < q1" | "b = q1" by linarith
  then show False
  proof cases
    case 1
    with B have b1: "a < q1" "round_double (b - q1) \<le> round_double (q1 - a)" by simp_all
    with qq have "a < q2" by linarith
    with A have a2: "round_double (q2 - a) < round_double (b - q2)" by simp
    have "round_double (b - q2) \<le> round_double (b - q1)"
      using qq by (intro round_double_mono) simp
    moreover have "round_double (q1 - a) \<le> round_double (q2 - a)"
      using qq by (intro round_double_mono) simp
    ultimately show False using b1(2) a2 by linarith
  next
    case 2
    with ab qq have "a < q2" by linarith
    with A have "q2 < b" by simp
    with 2 qq show False by linarith
  next
    case 3
    with ab qq have "a < q2" by linarith
    with A have "q2 < b" by simp
    with 3 qq show False by linarith
  qed
qed

theorem findClosestIndex_mono_witness:
  "findClosestIndex [0, 5, 10] 2 \<le> findClosestIndex [0, 5, 10] 3
   \<and> findClosestIndex [0, 5, 10] 2 = 0 \<and> findClosestIndex [0, 5, 10] 3 = 1"
proof -
  have s: "sorted [0, 5, 10 :: real]" by simp
  have n: "[0, 5, 10 :: real] \<noteq> []" by simp
  have q: "(2 :: real) \<le> 3" by simp
  have "findClosestIndex [0, 5, 10] 2 = 0" "findClosestIndex [0, 5, 10] 3 = 1"
    by (simp_all add: findClosestIndex_eval)
  with findClosestIndex_mono[OF s n q] show ?thesis by blast
qed

text \<open>
  Claim C8. For every non-empty ascending key sequence and every real query,
  \<open>findClosestIndex\<close> terminates (the model is a total function, the loop runs at most
  \<open>length keys\<close> iterations with at most two reads each, and every iteration that
  continues shrinks \<open>right - left\<close>), the value returned is an index
  \<open>0 \<le> index < length keys\<close>, and so is every index at which the array is read.
\<close>

theorem findClosestIndex_total_in_range:
  fixes keys :: "real list" and query :: real
  assumes srt: "sorted keys" and ne: "keys \<noteq> []"
  shows "0 \<le> findClosestIndex keys query \<and> findClosestIndex keys query < int (length keys)
    \<and> (\<forall>i \<in> set (findClosestIndex_reads keys query). 0 \<le> i \<and> i < int (length keys))
    \<and> search_loop_iterations keys query 0 (int (length keys) - 1) \<le> length keys
    \<and> length (search_loop_reads keys query 0 (int (length keys) - 1)) \<le> 2 * length keys
    \<and> (\<forall>left right left' right'. left \<le> right
          \<and> loop_body keys query (left, right) = Some (left', right')
          \<longrightarrow> right' - left' < right - left)"
proof -
  let ?n = "int (length keys)"
  have n: "0 < length keys" using ne by simp
  have last: "nat (?n - 1) = length keys - 1" by simp
  have rng: "0 \<le> findClosestIndex keys query \<and> findClosestIndex keys query < ?n"
    using findClosestIndex_facts[OF srt ne, of query] by simp
  have its: "search_loop_iterations keys query 0 (?n - 1) \<le> length keys"
    using search_loop_iterations_bound[of keys query 0 "?n - 1"] by simp
  have len: "length (search_loop_reads keys query 0 (?n - 1)) \<le> 2 * length keys"
    using search_loop_reads_length[of keys query 0 "?n - 1"] its by linarith
  have shrink: "\<forall>left right left' right'. left \<le> right
          \<and> loop_body keys query (left, right) = Some (left', right')
          \<longrightarrow> right' - left' < right - left"
    using loop_body_shrinks by blast
  have loop_reads: "\<forall>i \<in> set (search_loop_reads keys query 0 (?n - 1)). 0 \<le> i \<and> i < ?n"
    using search_loop_reads_range[of keys query 0 "?n - 1"] by auto
  have reads: "\<forall>i \<in> set (findClosestIndex_reads keys query). 0 \<le> i \<and> i < ?n"
  proof (cases "keys ! 0 < query \<and> query < keys ! (length keys - 1)")
    case False
    then show ?thesis using n last
      by (auto simp: findClosestIndex_reads_def Let_def read_def js_le_def js_ge_def)
  next
    case True
    then have lo: "keys ! 0 < query" and hi: "query < keys ! (length keys - 1)" by simp_all
    have r: "findClosestIndex_reads keys query =
        [0, ?n - 1] @ search_loop_reads keys query 0 (?n - 1) @
           (case search_loop keys query 0 (?n - 1) of
              Found mid \<Rightarrow> []
            | Crossed left' right' \<Rightarrow> [left', right'])"
      using lo hi n last
      by (simp add: findClosestIndex_reads_def Let_def read_def js_le_def js_ge_def)
    have "\<forall>i \<in> set (case search_loop keys query 0 (?n - 1) of
              Found mid \<Rightarrow> []
            | Crossed left' right' \<Rightarrow> [left', right']). 0 \<le> i \<and> i < ?n"
      using search_loop_interior[OF srt ne lo hi] by (auto split: loop_exit.splits)
    with loop_reads n show ?thesis unfolding r by auto
  qed
  from rng reads its len shrink show ?thesis by blast
qed

theorem findClosestIndex_total_in_range_witness:
  "findClosestIndex_reads [0, 1, 2, 3, 4] (26 / 10) = [0, 4, 2, 2, 3, 3, 3, 2]
   \<and> 0 \<le> findClosestIndex [0, 1, 2, 3, 4] (26 / 10)
   \<and> findClosestIndex [0, 1, 2, 3, 4] (26 / 10) < 5
   \<and> search_loop_iterations [0, 1, 2, 3, 4] (26 / 10) 0 4 \<le> 5
   \<and> length (search_loop_reads [0, 1, 2, 3, 4] (26 / 10) 0 4) \<le> 10"
proof -
  have s: "sorted [0, 1, 2, 3, 4 :: real]" by simp
  have n: "[0, 1, 2, 3, 4 :: real] \<noteq> []" by simp
  have v: "findClosestIndex_reads [0, 1, 2, 3, 4] (26 / 10) = [0, 4, 2, 2, 3, 3, 3, 2]"
    by (simp add: findClosestIndex_reads_def search_loop_reads.simps findClosestIndex_eval)
  from findClosestIndex_total_in_range[OF s n, of "26 / 10"] v show ?thesis by simp
qed

subsection \<open>The claim about the curve-index correction\<close>

text \<open>
  Claim C4, as stated: the corrected segment index equals
  \<open>clamp(min(index, segmentCount+1) - delta, 0, segmentCount-1)\<close> and never exceeds
  \<open>segmentCount - 1\<close>. The source has the lower bound only,
  \<open>Math.max(Math.min(closestIndex, path.curves.length + 1) - pathDataDelta, 0)\<close>: for a
  path without curves and one key it yields \<open>0\<close>, which exceeds \<open>segmentCount - 1 = -1\<close>.
\<close>

theorem curve_correction_counterexample:
  "closestPathCurve (Path (Vector 0 0) [] False) [0] (findClosestIndex [0] 0) = 0
   \<and> \<not> closestPathCurve (Path (Vector 0 0) [] False) [0] (findClosestIndex [0] 0)
        \<le> int (length (path_curves (Path (Vector 0 0) [] False))) - 1
   \<and> closestPathCurve (Path (Vector 0 0) [] False) [0] (findClosestIndex [0] 0)
       \<noteq> segment_spec (findClosestIndex [0] 0)
            (int (length (path_curves (Path (Vector 0 0) [] False))))
            (pathDataDelta (Path (Vector 0 0) [] False) [0])"
  by (simp add: closestPathCurve_def pathDataDelta_def segment_spec_def clamp_spec_def
        findClosestIndex_eval)

text \<open>
  Claim C4, amended: for an index located in a non-empty ascending key sequence, the
  corrected segment index is never negative; when the path has at least one curve it
  equals \<open>clamp(min(index, segmentCount+1) - delta, 0, segmentCount-1)\<close> and so never
  exceeds \<open>segmentCount - 1\<close> (the upper bound holds without being enforced); when the
  path has no curve it is \<open>0\<close>.
\<close>

theorem curve_correction:
  fixes keys :: "real list" and query :: real
  assumes srt: "sorted keys" and ne: "keys \<noteq> []"
  shows "0 \<le> closestPathCurve p keys (findClosestIndex keys query)
    \<and> (path_curves p \<noteq> [] \<longrightarrow>
          closestPathCurve p keys (findClosestIndex keys query)
            = segment_spec (findClosestIndex keys query) (int (length (path_curves p)))
                (pathDataDelta p keys)
        \<and> closestPathCurve p keys (findClosestIndex keys query)
            \<le> int (length (path_curves p)) - 1)
    \<and> (path_curves p = [] \<longrightarrow> closestPathCurve p keys (findClosestIndex keys query) = 0)"
proof -
  define i where "i = findClosestIndex keys query"
  define sc where "sc = int (length (path_curves p))"
  define n where "n = int (length keys)"
  have rng: "0 \<le> i" "i < n"
    using findClosestIndex_facts[OF srt ne, of query] by (simp_all add: i_def n_def)
  have nonneg: "0 \<le> max (min i (sc + 1) - \<bar>sc - n\<bar>) 0" by simp
  have some: "path_curves p \<noteq> [] \<longrightarrow>
      max (min i (sc + 1) - \<bar>sc - n\<bar>) 0 = min (max 0 (min i (sc + 1) - \<bar>sc - n\<bar>)) (sc - 1)
      \<and> max (min i (sc + 1) - \<bar>sc - n\<bar>) 0 \<le> sc - 1"
  proof
    assume "path_curves p \<noteq> []"
    then have sc1: "1 \<le> sc" by (cases "path_curves p") (simp_all add: sc_def)
    have up: "min i (sc + 1) - \<bar>sc - n\<bar> \<le> sc - 1" using rng sc1 by linarith
    show "max (min i (sc + 1) - \<bar>sc - n\<bar>) 0 = min (max 0 (min i (sc + 1) - \<bar>sc - n\<bar>)) (sc - 1)
      \<and> max (min i (sc + 1) - \<bar>sc - n\<bar>) 0 \<le> sc - 1"
      using up sc1 by linarith
  qed
  have none: "path_curves p = [] \<longrightarrow> max (min i (sc + 1) - \<bar>sc - n\<bar>) 0 = 0"
  proof
    assume "path_curves p = []"
    then have "sc = 0" by (simp add: sc_def)
    with rng show "max (min i (sc + 1) - \<bar>sc - n\<bar>) 0 = 0" by linarith
  qed
  from nonneg some none show ?thesis
    unfolding closestPathCurve_def pathDataDelta_def segment_spec_def clamp_spec_def
      i_def[symmetric] sc_def[symmetric] n_def[symmetric]
    by blast
qed

theorem curve_correction_witness:
  "closestPathCurve (Path (Vector 0 0) [Curve (Vector 1 1) (Vector 2 2) (Vector 3 3),
       Curve (Vector 4 4) (Vector 5 5) (Vector 6 6)] False) [0, 5, 10]
     (findClosestIndex [0, 5, 10] 7) \<le> 1
   \<and> closestPathCurve (Path (Vector 0 0) [] False) [0, 5, 10]
     (findClosestIndex [0, 5, 10] 7) = 0"
proof -
  have s: "sorted [0, 5, 10 :: real]" by simp
  have n: "[0, 5, 10 :: real] \<noteq> []" by simp
  from curve_correction[OF s n, of "Path (Vector 0 0) [Curve (Vector 1 1) (Vector 2 2)
         (Vector 3 3), Curve (Vector 4 4) (Vector 5 5) (Vector 6 6)] False" 7]
    curve_correction[OF s n, of "Path (Vector 0 0) [] False" 7]
  show ?thesis by simp
qed

subsection \<open>The claims about the end of the gesture\<close>

text \<open>
  Claim C9. When the end event of the gesture fires, the shared state is set to the
  inactive sentinel: \<open>isActive\<close> is false and \<open>currentIndex\<close> is \<open>-1\<close>, whatever state the
  earlier move events left behind.
\<close>

theorem onEnd_resets: "isActive (onEnd s) = False \<and> currentIndex (onEnd s) = - 1"
  by (simp add: onEnd_def)

text \<open>
  Claim C10. The end handler writes \<open>isActive\<close> and \<open>currentIndex\<close> only: \<open>currentX\<close> keeps
  the value of the last move event, and nothing else of the state changes either.
\<close>

theorem onEnd_frame:
  "currentX (onEnd s) = currentX s \<and> shared.more (onEnd s) = shared.more s
   \<and> onEnd s = s\<lparr>isActive := isActive (onEnd s), currentIndex := currentIndex (onEnd s)\<rparr>"
  by (simp add: onEnd_def)

end
